theory Spec2Isabelle
  imports Complex_Main "HOL-Library.Word"
begin

section \<open>JavaScript numbers\<close>

text \<open>
  A JavaScript \<^verbatim>\<open>number\<close> is modelled as an exact real, plus the three
  non-finite values that the arithmetic of the program can produce. Rounding of binary
  floating point is not modelled: \<open>Val\<close> carries the exact result. Zero divisors in the
  program are byte counts, loop counters and image heights, so a zero divisor is always
  the positive zero.
\<close>

datatype number = Val real | PosInf | NegInf | NaN

fun js_neg :: "number \<Rightarrow> number" where
  "js_neg (Val a) = Val (- a)"
| "js_neg PosInf = NegInf"
| "js_neg NegInf = PosInf"
| "js_neg NaN = NaN"

fun js_add :: "number \<Rightarrow> number \<Rightarrow> number" where
  "js_add (Val a) (Val b) = Val (a + b)"
| "js_add NaN _ = NaN"
| "js_add _ NaN = NaN"
| "js_add PosInf NegInf = NaN"
| "js_add NegInf PosInf = NaN"
| "js_add PosInf _ = PosInf"
| "js_add _ PosInf = PosInf"
| "js_add NegInf _ = NegInf"
| "js_add _ NegInf = NegInf"

definition js_sub :: "number \<Rightarrow> number \<Rightarrow> number" where
  "js_sub a b = js_add a (js_neg b)"

text \<open>The sign of a number: \<open>Some True\<close> positive, \<open>Some False\<close> negative, \<open>None\<close> zero or \<open>NaN\<close>.\<close>

fun js_sign :: "number \<Rightarrow> bool option" where
  "js_sign (Val a) = (if 0 < a then Some True else if a < 0 then Some False else None)"
| "js_sign PosInf = Some True"
| "js_sign NegInf = Some False"
| "js_sign NaN = None"

fun js_mul :: "number \<Rightarrow> number \<Rightarrow> number" where
  "js_mul (Val a) (Val b) = Val (a * b)"
| "js_mul NaN _ = NaN"
| "js_mul _ NaN = NaN"
| "js_mul a b =
     (case (js_sign a, js_sign b) of
        (Some s, Some t) \<Rightarrow> (if s = t then PosInf else NegInf)
      | _ \<Rightarrow> NaN)"

fun js_div :: "number \<Rightarrow> number \<Rightarrow> number" where
  "js_div (Val a) (Val b) =
     (if b = 0 then (if a = 0 then NaN else if 0 < a then PosInf else NegInf)
      else Val (a / b))"
| "js_div NaN _ = NaN"
| "js_div _ NaN = NaN"
| "js_div (Val a) _ = Val 0"
| "js_div a (Val b) =
     (if 0 \<le> b then a else js_neg a)"
| "js_div _ _ = NaN"

fun js_abs :: "number \<Rightarrow> number" where
  "js_abs (Val a) = Val \<bar>a\<bar>"
| "js_abs NaN = NaN"
| "js_abs _ = PosInf"

text \<open>\<^verbatim>\<open>a > b\<close> and \<^verbatim>\<open>a >= b\<close>: false as soon as one side is \<open>NaN\<close>.\<close>

fun js_gt :: "number \<Rightarrow> number \<Rightarrow> bool" where
  "js_gt (Val a) (Val b) = (b < a)"
| "js_gt NaN _ = False"
| "js_gt _ NaN = False"
| "js_gt PosInf b = (b \<noteq> PosInf)"
| "js_gt a NegInf = (a \<noteq> NegInf)"
| "js_gt _ _ = False"

fun js_eq :: "number \<Rightarrow> number \<Rightarrow> bool" where
  "js_eq NaN _ = False"
| "js_eq _ NaN = False"
| "js_eq a b = (a = b)"

definition js_ge :: "number \<Rightarrow> number \<Rightarrow> bool" where
  "js_ge a b = (js_gt a b \<or> js_eq a b)"

text \<open>\<^verbatim>\<open>Math.min(a, b)\<close>: \<open>NaN\<close> as soon as one argument is.\<close>

definition js_min :: "number \<Rightarrow> number \<Rightarrow> number" where
  "js_min a b = (if a = NaN \<or> b = NaN then NaN else if js_gt a b then b else a)"

section \<open>Typed arrays\<close>

text \<open>
  A \<^verbatim>\<open>Uint8ClampedArray\<close> is a list of bytes, a \<^verbatim>\<open>Float32Array\<close> a list of
  numbers. Reading past the end gives \<^verbatim>\<open>undefined\<close>, which every arithmetic operator
  turns into \<open>NaN\<close>. Writing past the end is ignored, which is what \<open>xs[i := v]\<close> does.
\<close>

type_synonym uint8array = "8 word list"
type_synonym float32array = "number list"

definition rd8 :: "uint8array \<Rightarrow> nat \<Rightarrow> number" where
  "rd8 a i = (if i < length a then Val (real (unat (a ! i))) else NaN)"

definition rdF :: "float32array \<Rightarrow> nat \<Rightarrow> number" where
  "rdF a i = (if i < length a then a ! i else NaN)"

section \<open>Frame difference metric\<close>

text \<open>
  \<^verbatim>\<open>for (let i = 0; i < data1.length; i += 4 * 4) { ... diff += rDiff + gDiff + bDiff; }\<close>
\<close>

function diffLoop :: "uint8array \<Rightarrow> uint8array \<Rightarrow> nat \<Rightarrow> number \<Rightarrow> number" where
  "diffLoop data1 data2 i diff =
     (if i < length data1 then
        (let rDiff = js_abs (js_sub (rd8 data1 i) (rd8 data2 i));
             gDiff = js_abs (js_sub (rd8 data1 (i + 1)) (rd8 data2 (i + 1)));
             bDiff = js_abs (js_sub (rd8 data1 (i + 2)) (rd8 data2 (i + 2)))
         in diffLoop data1 data2 (i + 4 * 4) (js_add diff (js_add (js_add rDiff gDiff) bDiff)))
      else diff)"
  by pat_completeness auto
termination
  by (relation "measure (\<lambda>(data1, data2, i, diff). length data1 - i)") auto

declare diffLoop.simps [simp del]

text \<open>\<^verbatim>\<open>return diff / (data1.length / 4);\<close>\<close>

definition calculateFrameDifference :: "uint8array \<Rightarrow> uint8array \<Rightarrow> number" where
  "calculateFrameDifference data1 data2 =
     js_div (diffLoop data1 data2 0 (Val 0)) (js_div (Val (real (length data1))) (Val 4))"

section \<open>Separable box blur\<close>

text \<open>
  Array subscripts computed in the blur are integers; a subscript outside the array reads
  \<^verbatim>\<open>undefined\<close>.
\<close>

definition rdI :: "float32array \<Rightarrow> int \<Rightarrow> number" where
  "rdI a i = (if 0 \<le> i \<and> nat i < length a then a ! nat i else NaN)"

text \<open>\<^verbatim>\<open>Math.min(w - 1, Math.max(0, x + k))\<close>\<close>

definition clampIndex :: "nat \<Rightarrow> int \<Rightarrow> int" where
  "clampIndex w v = min (int w - 1) (max 0 v)"

text \<open>
  The innermost loop,
  \<^verbatim>\<open>for (let k = -radius; k <= radius; k++) { sum += ...; count++; }\<close>
  followed by \<^verbatim>\<open>sum / count\<close>. Here \<open>sample k\<close> is the array element read at offset
  \<open>k\<close>, and \<open>acc\<close> stands for the variable \<^verbatim>\<open>sum\<close> of the source.
\<close>

definition blurAt :: "(int \<Rightarrow> number) \<Rightarrow> int \<Rightarrow> number" where
  "blurAt sample radius =
     (case foldl (\<lambda>(acc, count) k. (js_add acc (sample k), count + 1)) (Val 0, 0::nat)
             [- radius..radius] of
        (acc, count) \<Rightarrow> js_div acc (Val (real count)))"

text \<open>
  The two outer loops of a pass,
  \<^verbatim>\<open>for (let y = 0; y < h; y++) for (let x = 0; x < w; x++) buf[y * w + x] = f(y, x);\<close>
\<close>

definition rasterPass ::
  "nat \<Rightarrow> nat \<Rightarrow> (nat \<Rightarrow> nat \<Rightarrow> number) \<Rightarrow> float32array \<Rightarrow> float32array" where
  "rasterPass w h f buf =
     foldl (\<lambda>buf y. foldl (\<lambda>buf x. buf[y * w + x := f y x]) buf [0..<w]) buf [0..<h]"

definition boxBlur :: "float32array \<Rightarrow> nat \<Rightarrow> nat \<Rightarrow> int \<Rightarrow> float32array" where
  "boxBlur data w h radius =
     (let output = replicate (length data) (Val 0);
          temp = replicate (length data) (Val 0);
          temp = rasterPass w h
            (\<lambda>y x. blurAt (\<lambda>k. rdI data (int y * int w + clampIndex w (int x + k))) radius)
            temp;
          output = rasterPass w h
            (\<lambda>y x. blurAt (\<lambda>k. rdI temp (clampIndex h (int y + k) * int w + int x)) radius)
            output
      in output)"

section \<open>Sketch synthesis\<close>

text \<open>
  Storing a number into a \<^verbatim>\<open>Uint8ClampedArray\<close>: \<open>NaN\<close> becomes 0, the value is
  clamped to 0..255 and rounded to the nearest integer, a tie going to the even one.
\<close>

definition roundHalfEven :: "real \<Rightarrow> int" where
  "roundHalfEven a =
     (let f = \<lfloor>a\<rfloor>
      in if a - of_int f < 1 / 2 then f
         else if 1 / 2 < a - of_int f then f + 1
         else if even f then f else f + 1)"

fun toUint8Clamped :: "number \<Rightarrow> 8 word" where
  "toUint8Clamped (Val a) =
     (if a \<le> 0 then 0 else if 255 \<le> a then 255 else word_of_int (roundHalfEven a))"
| "toUint8Clamped PosInf = 255"
| "toUint8Clamped NegInf = 0"
| "toUint8Clamped NaN = 0"

text \<open>
  \<^verbatim>\<open>for (let i = 0; i < data.length; i += 4) { grayData[i / 4] = 0.299 * data[i] + ...; }\<close>
  The counter is a multiple of 4, so \<^verbatim>\<open>i / 4\<close> is the integer \<open>i div 4\<close>.
\<close>

function grayLoop :: "uint8array \<Rightarrow> nat \<Rightarrow> float32array \<Rightarrow> float32array" where
  "grayLoop data i grayData =
     (if i < length data then
        (let gray = js_add (js_add (js_mul (Val 0.299) (rd8 data i))
                                   (js_mul (Val 0.587) (rd8 data (i + 1))))
                           (js_mul (Val 0.114) (rd8 data (i + 2)))
         in grayLoop data (i + 4) (grayData[i div 4 := gray]))
      else grayData)"
  by pat_completeness auto
termination
  by (relation "measure (\<lambda>(data, i, grayData). length data - i)") auto

declare grayLoop.simps [simp del]

text \<open>The colour dodge of one pixel (the body of the second loop).\<close>

definition colorDodge :: "number \<Rightarrow> number \<Rightarrow> number" where
  "colorDodge base blurred =
     (let blend = js_sub (Val 255) blurred
      in if js_eq blend (Val 255) then Val 255
         else js_min (Val 255) (js_div (js_mul base (Val 255)) (js_sub (Val 255) blend)))"

function dodgeLoop :: "float32array \<Rightarrow> float32array \<Rightarrow> nat \<Rightarrow> uint8array \<Rightarrow> uint8array" where
  "dodgeLoop grayData blurredGray i data =
     (if i < length data then
        (let pixelIndex = i div 4;
             result = toUint8Clamped
                        (colorDodge (rdF grayData pixelIndex) (rdF blurredGray pixelIndex))
         in dodgeLoop grayData blurredGray (i + 4)
              (data[i := result, i + 1 := result, i + 2 := result]))
      else data)"
  by pat_completeness auto
termination
  by (relation "measure (\<lambda>(grayData, blurredGray, i, data). length data - i)") auto

declare dodgeLoop.simps [simp del]

text \<open>
  The decoded image handed to the filter: the canvas size and the bytes of
  \<^verbatim>\<open>getImageData\<close>, four per pixel in row-major order.
\<close>

record image =
  width :: nat
  height :: nat
  pixels :: uint8array

datatype sketch_error = ImageLoadFailed | NoCanvasContext

text \<open>
  \<open>applySketchEffect\<close> on the decoded image: \<open>None\<close> when the image fails to load
  (\<^verbatim>\<open>img.onerror = reject\<close>); \<open>hasContext\<close> tells whether \<^verbatim>\<open>getContext('2d')\<close>
  returned a context. The result is the image data written back by \<^verbatim>\<open>putImageData\<close>,
  before it is encoded as JPEG.
\<close>

definition applySketchEffect :: "image option \<Rightarrow> bool \<Rightarrow> sketch_error + image" where
  "applySketchEffect loaded hasContext =
     (case loaded of
        None \<Rightarrow> Inl ImageLoadFailed
      | Some img \<Rightarrow>
          if \<not> hasContext then Inl NoCanvasContext
          else
            (let grayData = grayLoop (pixels img) 0 (replicate (width img * height img) (Val 0));
                 blurRadius = 4;
                 blurredGray = boxBlur grayData (width img) (height img) blurRadius
             in Inr (img\<lparr>pixels := dodgeLoop grayData blurredGray 0 (pixels img)\<rparr>)))"

section \<open>Strings\<close>

text \<open>
  A JavaScript string is a sequence of UTF-16 code units; \<^verbatim>\<open>text[n]\<close> and
  \<^verbatim>\<open>text.length\<close> count code units. \<open>str\<close> embeds an ASCII literal.
\<close>

type_synonym jsstring = "16 word list"

definition str :: "string \<Rightarrow> jsstring" where
  "str s = map of_char s"

text \<open>\<^verbatim>\<open>toString()\<close> of a non-negative integer, and of an integer, in decimal.\<close>

fun toStringNat :: "nat \<Rightarrow> jsstring" where
  "toStringNat n =
     (if n < 10 then [of_nat (48 + n)]
      else toStringNat (n div 10) @ [of_nat (48 + n mod 10)])"

declare toStringNat.simps [simp del]

definition toStringInt :: "int \<Rightarrow> jsstring" where
  "toStringInt k = (if k < 0 then str ''-'' @ toStringNat (nat (- k)) else toStringNat (nat k))"

text \<open>\<^verbatim>\<open>s.padStart(2, '0')\<close>\<close>

definition padStart2 :: "jsstring \<Rightarrow> jsstring" where
  "padStart2 s = replicate (2 - length s) (of_char CHR ''0'') @ s"

text \<open>\<^verbatim>\<open>a % b\<close> on finite numbers with \<open>b \<noteq> 0\<close>: the remainder has the sign of \<open>a\<close>.\<close>

definition js_rem :: "real \<Rightarrow> real \<Rightarrow> real" where
  "js_rem a b = a - b * of_int (if 0 \<le> a / b then \<lfloor>a / b\<rfloor> else \<lceil>a / b\<rceil>)"

text \<open>
  \<^verbatim>\<open>x.toFixed(2)\<close>: the integer \<open>n\<close> with \<open>n / 100\<close> nearest to \<open>x\<close> (the larger
  one at a tie), printed with two decimals.
\<close>

definition toFixed2 :: "real \<Rightarrow> jsstring" where
  "toFixed2 x =
     (let a = \<bar>x\<bar>; n = nat \<lfloor>a * 100 + 1 / 2\<rfloor>
      in (if x < 0 then str ''-'' else []) @ toStringNat (n div 100) @ str ''.''
         @ padStart2 (toStringNat (n mod 100)))"

section \<open>Keyframes\<close>

text \<open>
  The \<^verbatim>\<open>Keyframe\<close> interface. The field \<^verbatim>\<open>id\<close> is named \<open>id'\<close> here; the optional
  \<^verbatim>\<open>caption\<close> is an option.
\<close>

record keyframe =
  id' :: jsstring
  time :: real
  imageUrl :: jsstring
  isSketch :: bool
  originalUrl :: jsstring
  caption :: "jsstring option"

text \<open>
  \<open>formatTime\<close>. A keyframe's time is a finite number, so the guard
  \<^verbatim>\<open>seconds === undefined || isNaN(seconds)\<close> never fires on it.
\<close>

definition formatTime :: "real \<Rightarrow> jsstring" where
  "formatTime seconds =
     (let m = \<lfloor>seconds / 60\<rfloor>;
          s = \<lfloor>js_rem seconds 60\<rfloor>
      in toStringInt m @ str '':'' @ padStart2 (toStringInt s))"

section \<open>Scene sampler\<close>

text \<open>
  The video element as the sampler sees it: its duration, the bytes that
  \<^verbatim>\<open>getImageData\<close> returns for the 640 pixel wide working canvas once the seek to a
  time has completed, and the JPEG data URL of the output canvas at that time
  (\<open>None\<close> when the output canvas gives no 2D context).
\<close>

record video =
  duration :: number
  frameAt :: "real \<Rightarrow> uint8array"
  capture :: "real \<Rightarrow> jsstring option"

text \<open>The variables that \<open>processInterval\<close> closes over.\<close>

record sampler =
  frames :: "keyframe list"
  lastFrameData :: "uint8array option"
  processedTime :: real

definition sampleRate :: real where
  "sampleRate = 0.5"

definition threshold :: number where
  "threshold = Val 15"

definition initialSampler :: sampler where
  "initialSampler = \<lparr>frames = [], lastFrameData = None, processedTime = 0\<rparr>"

text \<open>
  One call of \<open>processInterval\<close> past its exit test: seek, draw, detect, push, advance.
  The progress callback reports \<^verbatim>\<open>processedTime / duration\<close> and changes nothing.
\<close>

definition sampleFrame :: "video \<Rightarrow> sampler \<Rightarrow> sampler" where
  "sampleFrame v st =
     (let currentData = frameAt v (processedTime st);
          isKeyframe =
            (case lastFrameData st of
               None \<Rightarrow> True
             | Some lastData \<Rightarrow> js_gt (calculateFrameDifference lastData currentData) threshold);
          st' =
            (if isKeyframe then
               st\<lparr>frames :=
                    (case capture v (processedTime st) of
                       None \<Rightarrow> frames st
                     | Some dataUrl \<Rightarrow>
                         frames st @
                           [\<lparr>id' = str ''frame-'' @ toFixed2 (processedTime st),
                             time = processedTime st,
                             imageUrl = dataUrl,
                             isSketch = False,
                             originalUrl = dataUrl,
                             caption = None\<rparr>]),
                  lastFrameData := Some currentData\<rparr>
             else st)
      in st'\<lparr>processedTime := processedTime st + sampleRate\<rparr>)"

text \<open>
  \<open>processInterval\<close> reschedules itself until \<^verbatim>\<open>processedTime >= duration\<close> and then
  hands the frames to \<^verbatim>\<open>onProcessingComplete\<close>. The result is \<open>None\<close> when that never
  happens (a duration that is \<open>NaN\<close> or infinite).
\<close>

partial_function (option) processInterval :: "video \<Rightarrow> sampler \<Rightarrow> keyframe list option" where
  "processInterval v st =
     (if js_ge (Val (processedTime st)) (duration v) then Some (frames st)
      else processInterval v (sampleFrame v st))"

declare processInterval.simps [code]



section \<open>Storyboard compositor\<close>

text \<open>
  A canvas is the list of drawing commands issued on its context, in order, together with
  the font currently set. Fill and stroke colours, line widths, text alignment and
  baseline are the same for every command of a kind and are left out. An image is drawn
  inside \<^verbatim>\<open>save(); rect(...); clip(); ... restore()\<close>; the clip rectangle is part of
  the command.
\<close>

datatype font = FontMain | FontHeader | FontNumber

datatype drawcmd =
    FillRect real real real real
  | FillText font jsstring real real
  | StrokeLine real real real real
  | StrokeRect real real real real
  | DrawImage jsstring number number number number "real \<times> real \<times> real \<times> real"

record context2d =
  font :: font
  commands :: "drawcmd list"

definition draw :: "context2d \<Rightarrow> drawcmd \<Rightarrow> context2d" where
  "draw ctx c = ctx\<lparr>commands := commands ctx @ [c]\<rparr>"

definition fillText :: "context2d \<Rightarrow> jsstring \<Rightarrow> real \<Rightarrow> real \<Rightarrow> context2d" where
  "fillText ctx text x y = draw ctx (FillText (font ctx) text x y)"

text \<open>
  What the browser supplies: whether \<^verbatim>\<open>getContext('2d')\<close> succeeds for the page that
  starts at a frame index, the natural size of a loaded image (\<open>None\<close> when loading
  fails), and \<^verbatim>\<open>measureText(s).width\<close> in a font.
\<close>

record browser =
  getContext :: "nat \<Rightarrow> bool"
  loadImage :: "jsstring \<Rightarrow> (nat \<times> nat) option"
  measureText :: "font \<Rightarrow> jsstring \<Rightarrow> real"

text \<open>
  The loop of \<open>wrapText\<close> over the code units of the text; its state is the context,
  the current line, the vertical cursor and the number of lines flushed.
  \<^verbatim>\<open>if (lineCount > 4) break;\<close> leaves the loop.
\<close>

function wrapLoop ::
  "browser \<Rightarrow> jsstring \<Rightarrow> real \<Rightarrow> real \<Rightarrow> real \<Rightarrow> nat
     \<Rightarrow> context2d \<times> jsstring \<times> real \<times> nat \<Rightarrow> context2d \<times> jsstring \<times> real" where
  "wrapLoop env text x maxWidth lineHeight n (ctx, line, y, lineCount) =
     (if n < length text then
        (let testLine = line @ [text ! n];
             testWidth = measureText env (font ctx) testLine
         in if maxWidth < testWidth \<and> 0 < n then
              (let ctx' = fillText ctx line x y;
                   line' = [text ! n];
                   y' = y + lineHeight;
                   lineCount' = lineCount + 1
               in if 4 < lineCount' then (ctx', line', y')
                  else wrapLoop env text x maxWidth lineHeight (n + 1) (ctx', line', y', lineCount'))
            else wrapLoop env text x maxWidth lineHeight (n + 1) (ctx, testLine, y, lineCount))
      else (ctx, line, y))"
  by pat_completeness auto
termination
  by (relation "measure (\<lambda>(env, text, x, maxWidth, lineHeight, n, st). length text - n)") auto

declare wrapLoop.simps [simp del]

definition wrapText ::
  "browser \<Rightarrow> context2d \<Rightarrow> jsstring \<Rightarrow> real \<Rightarrow> real \<Rightarrow> real \<Rightarrow> real \<Rightarrow> context2d" where
  "wrapText env ctx text x y maxWidth lineHeight =
     (case wrapLoop env text x maxWidth lineHeight 0 (ctx, [], y, 0) of
        (ctx', line, y') \<Rightarrow> fillText ctx' line x y')"

definition cols :: nat where "cols = 4"
definition rows :: nat where "rows = 3"
definition canvasWidth :: real where "canvasWidth = 2480"
definition canvasHeight :: real where "canvasHeight = 1754"
definition padding :: real where "padding = 60"
definition headerHeight :: real where "headerHeight = 100"
definition gridWidth :: real where "gridWidth = canvasWidth - padding * 2"
definition gridHeight :: real where "gridHeight = canvasHeight - padding * 2 - headerHeight"
definition cellGapX :: real where "cellGapX = 40"
definition cellGapY :: real where "cellGapY = 50"
definition cellWidth :: real where
  "cellWidth = (gridWidth - cellGapX * (real cols - 1)) / real cols"
definition cellHeight :: real where
  "cellHeight = (gridHeight - cellGapY * (real rows - 1)) / real rows"
definition textAreaHeight :: real where "textAreaHeight = 160"
definition imageAreaHeight :: real where "imageAreaHeight = cellHeight - textAreaHeight"
definition imageWidth :: real where "imageWidth = cellWidth"

text \<open>
  The cover fit of a loaded image of the given natural size into the image box:
  the drawn width and height and the offsets from the corner of the box.
\<close>

record placement =
  drawW :: number
  drawH :: number
  offX :: number
  offY :: number

definition coverFit :: "nat \<Rightarrow> nat \<Rightarrow> placement" where
  "coverFit imgW imgH =
     (let imgAspect = js_div (Val (real imgW)) (Val (real imgH));
          boxAspect = js_div (Val imageWidth) (Val imageAreaHeight)
      in if js_gt imgAspect boxAspect then
           (let w = js_mul (Val imageAreaHeight) imgAspect
            in \<lparr>drawW = w, drawH = Val imageAreaHeight,
                offX = js_div (js_sub (Val imageWidth) w) (Val 2), offY = Val 0\<rparr>)
         else
           (let h = js_div (Val imageWidth) imgAspect
            in \<lparr>drawW = Val imageWidth, drawH = h,
                offX = Val 0, offY = js_div (js_sub (Val imageAreaHeight) h) (Val 2)\<rparr>))"

text \<open>The placeholder caption, three CJK characters and three full stops.\<close>

definition placeholderCaption :: jsstring where
  "placeholderCaption = [0x5F85, 0x8865, 0x5145, 0x2E, 0x2E, 0x2E]"

text \<open>
  The body of the inner loop: frame \<open>j\<close> of the page that starts at frame index \<open>i\<close>.
  \<^verbatim>\<open>frame.caption || placeholder\<close> takes the placeholder for an absent and for an empty
  caption.
\<close>

definition drawFrame :: "browser \<Rightarrow> nat \<Rightarrow> context2d \<Rightarrow> nat \<times> keyframe \<Rightarrow> context2d" where
  "drawFrame env i ctx jf =
     (case jf of (j, frame) \<Rightarrow>
       (let col = j mod cols;
            row = j div cols;
            x = padding + real col * (cellWidth + cellGapX);
            y = padding + headerHeight + real row * (cellHeight + cellGapY);
            ctx = draw ctx (StrokeRect x y imageWidth imageAreaHeight);
            ctx = (case loadImage env (imageUrl frame) of
                     None \<Rightarrow> ctx
                   | Some (imgW, imgH) \<Rightarrow>
                       (let p = coverFit imgW imgH
                        in draw ctx (DrawImage (imageUrl frame)
                             (js_add (Val x) (offX p)) (js_add (Val y) (offY p)) (drawW p) (drawH p)
                             (x, y, imageWidth, imageAreaHeight))));
            ctx = fillText (ctx\<lparr>font := FontNumber\<rparr>) (toStringNat (i + j + 1)) (x - 5) (y - 5);
            captionY = y + imageAreaHeight + 25;
            captionText = (case caption frame of
                             None \<Rightarrow> placeholderCaption
                           | Some c \<Rightarrow> if c = [] then placeholderCaption else c)
        in wrapText env (ctx\<lparr>font := FontMain\<rparr>) captionText x captionY imageWidth 28))"







section \<open>Shot table export\<close>

text \<open>\<^verbatim>\<open>caption.replace(/"/g, '""')\<close>\<close>

definition escapeQuotes :: "jsstring \<Rightarrow> jsstring" where
  "escapeQuotes s = concat (map (\<lambda>c. if c = 0x22 then [0x22, 0x22] else [c]) s)"

text \<open>
  The row appended for one frame. \<^verbatim>\<open>frame.caption ? ... : ""\<close> takes the empty
  alternative for an absent and for an empty caption.
\<close>

definition csvRow :: "nat \<Rightarrow> keyframe \<Rightarrow> jsstring" where
  "csvRow index frame =
     (let safeDesc = (case caption frame of
                        None \<Rightarrow> []
                      | Some c \<Rightarrow> if c = [] then [] else [0x22] @ escapeQuotes c @ [0x22]);
          timecode = formatTime (time frame)
      in toStringNat (index + 1) @ str '','' @ timecode @ str '','' @ safeDesc @ [0x0A])"

text \<open>\<^verbatim>\<open>frames.forEach((frame, index) => { csvContent += ...; })\<close>\<close>

fun forEachRow :: "jsstring \<Rightarrow> nat \<Rightarrow> keyframe list \<Rightarrow> jsstring" where
  "forEachRow csvContent index [] = csvContent"
| "forEachRow csvContent index (frame # rest) =
     forEachRow (csvContent @ csvRow index frame) (index + 1) rest"

text \<open>The text handed to the \<^verbatim>\<open>Blob\<close>: byte-order mark, header line, rows.\<close>

definition handleExportTable :: "keyframe list \<Rightarrow> jsstring" where
  "handleExportTable frames' =
     forEachRow ([0xFEFF] @ str ''Shot No.,Timecode,Description'' @ [0x0A]) 0 frames'"

section \<open>Properties of the frame difference metric\<close>

lemma diffLoop_done: "length data1 \<le> i \<Longrightarrow> diffLoop data1 data2 i diff = diff"
  by (simp add: diffLoop.simps)

lemma rd8_replicate: "i < n \<Longrightarrow> rd8 (replicate n b) i = Val (real (unat b))"
  by (simp add: rd8_def)

lemma diffLoop_white_black:
  "j \<le> k \<Longrightarrow>
   diffLoop (replicate (16 * k) 255) (replicate (16 * k) 0) (16 * j) (Val a)
     = Val (a + 765 * real (k - j))"
proof (induction "k - j" arbitrary: j a)
  case 0
  then show ?case by (simp add: diffLoop_done)
next
  case (Suc d)
  then have lt: "j < k" and d: "d = k - Suc j" by auto
  from lt have r: "16 * j < 16 * k" "16 * j + 1 < 16 * k" "16 * j + 2 < 16 * k" by auto
  have step: "diffLoop (replicate (16 * k) 255) (replicate (16 * k) 0) (16 * j) (Val a)
      = diffLoop (replicate (16 * k) 255) (replicate (16 * k) 0) (16 * j + 16) (Val (a + 765))"
    using r by (subst diffLoop.simps) (simp add: rd8_replicate js_sub_def)
  have e: "16 * Suc j = 16 * j + 16" by simp
  have "Suc j \<le> k" using lt by simp
  from Suc.hyps(1)[OF d this, of "a + 765"] step Suc.hyps(2) show ?case
    unfolding e by (simp add: algebra_simps d)
qed

text \<open>
  Claim C1, as the code has it. Between an all-255 and an all-0 buffer whose length is a
  positive multiple of 16 bytes, the metric is \<open>3 \<times> 255 / 4\<close>, whatever the length:
  one pixel in four is summed and the sum is divided by the number of all pixels.
\<close>

theorem frame_difference_white_black:
  "0 < k \<Longrightarrow>
   calculateFrameDifference (replicate (16 * k) 255) (replicate (16 * k) 0) = Val (765 / 4)"
  using diffLoop_white_black[of 0 k 0]
  by (simp add: calculateFrameDifference_def)

theorem frame_difference_white_black_witness:
  "(0::nat) < 2 \<and> calculateFrameDifference (replicate 32 255) (replicate 32 0) = Val (765 / 4)"
  using frame_difference_white_black[of 2] by simp

text \<open>
  Claim C1 as stated fails: for four pixels (16 bytes) the metric is \<open>765 / 4\<close>,
  not \<open>765\<close>.
\<close>

theorem frame_difference_white_black_counterexample:
  "calculateFrameDifference (replicate 16 255) (replicate 16 0) = Val (765 / 4)
   \<and> calculateFrameDifference (replicate 16 255) (replicate 16 0) \<noteq> Val (3 * 255)"
  by code_simp

text \<open>
  Claim C4, as the code has it. For a zero-length first buffer the loop does not run and
  the unguarded division is 0 / 0: the metric is \<open>NaN\<close>, which does not exceed the
  threshold of the sampler.
\<close>

theorem frame_difference_empty:
  "calculateFrameDifference [] data2 = NaN
   \<and> \<not> js_gt (calculateFrameDifference [] data2) threshold"
  by (simp add: calculateFrameDifference_def diffLoop.simps threshold_def)

text \<open>
  Claim C4 as stated fails: on two empty buffers the metric is \<open>NaN\<close>, not 0.
\<close>

theorem frame_difference_empty_counterexample:
  "calculateFrameDifference [] [] = NaN \<and> calculateFrameDifference [] [] \<noteq> Val 0"
  by code_simp



section \<open>Properties of the box blur\<close>

lemma rowFold_length:
  "length (foldl (\<lambda>buf x. buf[b + x := f x]) buf [0..<w]) = length buf"
  by (induction w) simp_all

lemma rowFold_nth:
  "i < length buf \<Longrightarrow>
   foldl (\<lambda>buf x. buf[b + x := f x]) buf [0..<w] ! i
     = (if b \<le> i \<and> i < b + w then f (i - b) else buf ! i)"
proof (induction w)
  case 0
  then show ?case by auto
next
  case (Suc w)
  let ?r = "foldl (\<lambda>buf x. buf[b + x := f x]) buf [0..<w]"
  have len: "i < length ?r" using Suc.prems by (simp add: rowFold_length)
  show ?case
  proof (cases "i = b + w")
    case True
    then show ?thesis using len by simp
  next
    case False
    then show ?thesis using Suc by auto
  qed
qed

lemma rasterPass_length: "length (rasterPass w h f buf) = length buf"
  unfolding rasterPass_def
  by (induction h) (simp_all add: rowFold_length)

lemma rasterPass_Suc:
  "rasterPass w (Suc h) f buf
     = foldl (\<lambda>buf x. buf[h * w + x := f h x]) (rasterPass w h f buf) [0..<w]"
  by (simp add: rasterPass_def)

lemma rasterPass_nth:
  "i < length buf \<Longrightarrow>
   rasterPass w h f buf ! i = (if i < h * w then f (i div w) (i mod w) else buf ! i)"
proof (induction h)
  case 0
  then show ?case by (simp add: rasterPass_def)
next
  case (Suc h)
  have len: "i < length (rasterPass w h f buf)"
    using Suc.prems by (simp add: rasterPass_length)
  show ?case
  proof (cases "h * w \<le> i \<and> i < h * w + w")
    case True
    then have "0 < w" by auto
    with True have d: "i div w = h"
      by (metis add.commute div_nat_eqI mult.commute mult_Suc_right)
    have m: "i mod w = i - h * w"
      using d by (metis minus_mult_div_eq_mod mult.commute)
    show ?thesis
      using True by (simp add: rasterPass_Suc rowFold_nth[OF len] d m)
  next
    case False
    then show ?thesis
      using Suc by (auto simp add: rasterPass_Suc rowFold_nth[OF len])
  qed
qed

lemma blurFold_const:
  "(\<forall>k \<in> set ks. sample k = Val v) \<Longrightarrow>
   foldl (\<lambda>(acc, count) k. (js_add acc (sample k), count + 1)) (Val a, n) ks
     = (Val (a + v * real (length ks)), n + length ks)"
  by (induction ks arbitrary: a n) (simp_all add: algebra_simps)

lemma blurAt_const:
  assumes "0 \<le> radius" and "\<And>k. - radius \<le> k \<Longrightarrow> k \<le> radius \<Longrightarrow> sample k = Val v"
  shows "blurAt sample radius = Val v"
proof -
  have "\<forall>k \<in> set [- radius..radius]. sample k = Val v"
    using assms(2) by simp
  from blurFold_const[OF this, of 0 0] assms(1) show ?thesis
    by (simp add: blurAt_def)
qed

lemma rdI_replicate: "0 \<le> j \<Longrightarrow> j < int n \<Longrightarrow> rdI (replicate n c) j = c"
  by (auto simp: rdI_def nat_less_iff)

lemma clampIndex_range: "0 < w \<Longrightarrow> 0 \<le> clampIndex w v \<and> clampIndex w v < int w"
  by (auto simp: clampIndex_def)

lemma cell_index_bound:
  assumes "0 \<le> r" "r < int h" "0 \<le> c" "c < int w"
  shows "0 \<le> r * int w + c \<and> r * int w + c < int (w * h)"
proof -
  have "r + 1 \<le> int h" using assms by simp
  then have "(r + 1) * int w \<le> int h * int w"
    by (intro mult_right_mono) simp_all
  then have "r * int w + int w \<le> int (w * h)"
    by (simp add: algebra_simps)
  moreover have "0 \<le> r * int w" using assms by simp
  ultimately show ?thesis using assms by linarith
qed

lemma rasterPass_const:
  assumes "\<And>y x. y < h \<Longrightarrow> x < w \<Longrightarrow> f y x = c"
  shows "rasterPass w h f (replicate (w * h) z) = replicate (w * h) c"
proof (rule nth_equalityI)
  show "length (rasterPass w h f (replicate (w * h) z)) = length (replicate (w * h) c)"
    by (simp add: rasterPass_length)
next
  fix i assume "i < length (rasterPass w h f (replicate (w * h) z))"
  then have i: "i < w * h" by (simp add: rasterPass_length)
  then have w: "0 < w" by (cases w) auto
  have y: "i div w < h" using i w by (simp add: less_mult_imp_div_less mult.commute)
  have x: "i mod w < w" using w by simp
  show "rasterPass w h f (replicate (w * h) z) ! i = replicate (w * h) c ! i"
    using i assms[OF y x] by (simp add: rasterPass_nth mult.commute)
qed

lemma boxBlur_uniform_raster:
  assumes "0 \<le> radius"
  shows "boxBlur (replicate (w * h) (Val v)) w h radius = replicate (w * h) (Val v)"
proof -
  let ?data = "replicate (w * h) (Val v)"
  have horiz: "blurAt (\<lambda>k. rdI ?data (int y * int w + clampIndex w (int x + k))) radius = Val v"
    if "y < h" "x < w" for y x
  proof (rule blurAt_const[OF assms])
    fix k
    have "0 < w" using that by simp
    from clampIndex_range[OF this, of "int x + k"] that
    have "0 \<le> int y * int w + clampIndex w (int x + k)
        \<and> int y * int w + clampIndex w (int x + k) < int (w * h)"
      by (intro cell_index_bound) simp_all
    then show "rdI ?data (int y * int w + clampIndex w (int x + k)) = Val v"
      by (simp add: rdI_replicate)
  qed
  have vert: "blurAt (\<lambda>k. rdI ?data (clampIndex h (int y + k) * int w + int x)) radius = Val v"
    if "y < h" "x < w" for y x
  proof (rule blurAt_const[OF assms])
    fix k
    have "0 < h" using that by simp
    from clampIndex_range[OF this, of "int y + k"] that
    have "0 \<le> clampIndex h (int y + k) * int w + int x
        \<and> clampIndex h (int y + k) * int w + int x < int (w * h)"
      by (intro cell_index_bound) simp_all
    then show "rdI ?data (clampIndex h (int y + k) * int w + int x) = Val v"
      by (simp add: rdI_replicate)
  qed
  have temp: "rasterPass w h
      (\<lambda>y x. blurAt (\<lambda>k. rdI ?data (int y * int w + clampIndex w (int x + k))) radius)
      (replicate (w * h) (Val 0)) = ?data"
    by (rule rasterPass_const) (rule horiz)
  have out: "rasterPass w h
      (\<lambda>y x. blurAt (\<lambda>k. rdI ?data (clampIndex h (int y + k) * int w + int x)) radius)
      (replicate (w * h) (Val 0)) = ?data"
    by (rule rasterPass_const) (rule vert)
  show ?thesis
    by (simp add: boxBlur_def temp out)
qed

text \<open>
  Claim C8. A raster of \<open>w \<times> h\<close> samples that all equal \<open>v\<close> is returned unchanged by
  \<open>boxBlur\<close> at every radius \<open>\<ge> 0\<close>: same length, every sample \<open>v\<close>.
\<close>

theorem boxBlur_preserves_uniform:
  assumes "0 \<le> radius"
  shows "boxBlur (replicate (w * h) (Val v)) w h radius = replicate (w * h) (Val v)
     \<and> length (boxBlur (replicate (w * h) (Val v)) w h radius) = w * h"
  using boxBlur_uniform_raster[OF assms, of w h v] by simp

theorem boxBlur_preserves_uniform_witness:
  "(0::int) \<le> 3 \<and> boxBlur [Val 7] 1 1 3 = [Val 7]"
  using boxBlur_preserves_uniform[of 3 1 1 7] by simp

section \<open>Properties of the sketch synthesis\<close>

lemma replicate_update_same: "(replicate n c)[k := c] = replicate n c"
  by (cases "k < n") (auto intro!: nth_equalityI simp: nth_list_update)

lemma grayLoop_black:
  assumes len: "length data = 4 * n"
    and black: "\<And>p. p < n \<Longrightarrow> data ! (4 * p) = 0 \<and> data ! (4 * p + 1) = 0 \<and> data ! (4 * p + 2) = 0"
  shows "i mod 4 = 0 \<Longrightarrow> grayLoop data i (replicate n (Val 0)) = replicate n (Val 0)"
proof (induction "length data - i" arbitrary: i rule: less_induct)
  case less
  show ?case
  proof (cases "i < length data")
    case False
    then show ?thesis by (simp add: grayLoop.simps)
  next
    case True
    from less.prems have "4 dvd i" by presburger
    then obtain p where p: "i = 4 * p" ..
    with True len have pn: "p < n" by simp
    have rd: "rd8 data i = Val 0" "rd8 data (Suc i) = Val 0" "rd8 data (Suc (Suc i)) = Val 0"
      using black[OF pn] pn len by (simp_all add: rd8_def p)
    have upd: "(replicate n (Val 0))[i div 4 := Val 0] = replicate n (Val 0)"
      by (rule replicate_update_same)
    have "grayLoop data i (replicate n (Val 0)) = grayLoop data (i + 4) (replicate n (Val 0))"
      using True by (subst grayLoop.simps) (simp add: rd upd)
    moreover have "grayLoop data (i + 4) (replicate n (Val 0)) = replicate n (Val 0)"
      using True less.prems by (intro less.hyps) auto
    ultimately show ?thesis by simp
  qed
qed

lemma dodgeLoop_length: "length (dodgeLoop g b i data) = length data"
proof (induction "length data - i" arbitrary: i data rule: less_induct)
  case less
  show ?case
  proof (cases "i < length data")
    case False
    then show ?thesis by (simp add: dodgeLoop.simps)
  next
    case True
    let ?r = "toUint8Clamped (colorDodge (rdF g (i div 4)) (rdF b (i div 4)))"
    have "length (dodgeLoop g b (i + 4) (data[i := ?r, i + 1 := ?r, i + 2 := ?r]))
        = length (data[i := ?r, i + 1 := ?r, i + 2 := ?r])"
      using True by (intro less.hyps) auto
    then show ?thesis
      using True by (subst dodgeLoop.simps) (simp add: Let_def)
  qed
qed

lemma dodgeLoop_const:
  assumes res: "\<And>p. 4 * p < len \<Longrightarrow> toUint8Clamped (colorDodge (rdF g p) (rdF b p)) = r"
  shows "length data = len \<Longrightarrow> i mod 4 = 0 \<Longrightarrow> j < len \<Longrightarrow>
         dodgeLoop g b i data ! j = (if i \<le> j \<and> j mod 4 \<noteq> 3 then r else data ! j)"
proof (induction "len - i" arbitrary: i data rule: less_induct)
  case less
  show ?case
  proof (cases "i < length data")
    case False
    then show ?thesis using less.prems by (simp add: dodgeLoop.simps)
  next
    case True
    from less.prems have "4 dvd i" by presburger
    then obtain p where p: "i = 4 * p" ..
    have rr: "toUint8Clamped (colorDodge (rdF g (i div 4)) (rdF b (i div 4))) = r"
      using res[of p] True less.prems p by simp
    let ?d = "data[i := r, i + 1 := r, i + 2 := r]"
    have step: "dodgeLoop g b i data = dodgeLoop g b (i + 4) ?d"
      using True by (subst dodgeLoop.simps) (simp add: Let_def rr)
    have ih: "dodgeLoop g b (i + 4) ?d ! j = (if i + 4 \<le> j \<and> j mod 4 \<noteq> 3 then r else ?d ! j)"
      using True less.prems by (intro less.hyps) auto
    have upd: "?d ! j = (if j = i \<or> j = i + 1 \<or> j = i + 2 then r else data ! j)"
      using less.prems by (auto simp: nth_list_update)
    have cases: "(i \<le> j \<and> j < i + 4 \<and> j mod 4 \<noteq> 3) = (j = i \<or> j = i + 1 \<or> j = i + 2)"
      using less.prems(2) by presburger
    show ?thesis
      unfolding step ih upd using cases by auto
  qed
qed

lemma colorDodge_black: "toUint8Clamped (colorDodge (Val 0) (Val 0)) = 255"
  by (simp add: colorDodge_def js_sub_def)

text \<open>
  Claim C2, as the code has it. For an image that is black at every pixel the luminance
  and its blur are 0, the inverted blur is 255, and the guard \<^verbatim>\<open>blend === 255\<close>
  saturates: the red, green and blue channels of the output are 255 at every pixel and
  the alpha channel is unchanged.
\<close>

theorem sketch_black:
  assumes len: "length (pixels img) = 4 * (width img * height img)"
    and black: "\<forall>p < width img * height img.
        pixels img ! (4 * p) = 0 \<and> pixels img ! (4 * p + 1) = 0 \<and> pixels img ! (4 * p + 2) = 0"
  shows "\<exists>out. applySketchEffect (Some img) True = Inr out
           \<and> width out = width img \<and> height out = height img
           \<and> length (pixels out) = length (pixels img)
           \<and> (\<forall>p < width img * height img.
                 pixels out ! (4 * p) = 255 \<and> pixels out ! (4 * p + 1) = 255
               \<and> pixels out ! (4 * p + 2) = 255
               \<and> pixels out ! (4 * p + 3) = pixels img ! (4 * p + 3))"
proof -
  let ?n = "width img * height img"
  let ?z = "replicate ?n (Val 0)"
  have gray: "grayLoop (pixels img) 0 ?z = ?z"
    using black by (intro grayLoop_black[OF len]) auto
  have blur: "boxBlur ?z (width img) (height img) 4 = ?z"
    by (rule boxBlur_uniform_raster) simp
  let ?out = "dodgeLoop ?z ?z 0 (pixels img)"
  have res: "toUint8Clamped (colorDodge (rdF ?z p) (rdF ?z p)) = 255"
    if "4 * p < 4 * ?n" for p
    using that by (simp add: rdF_def colorDodge_black)
  have nth: "?out ! j = (if j mod 4 \<noteq> 3 then 255 else pixels img ! j)" if "j < 4 * ?n" for j
    using dodgeLoop_const[of "4 * ?n" ?z ?z 255 "pixels img" 0 j, OF res len _ that] by simp
  have eq: "applySketchEffect (Some img) True = Inr (img\<lparr>pixels := ?out\<rparr>)"
    by (simp add: applySketchEffect_def gray blur Let_def)
  have "\<forall>p < ?n. ?out ! (4 * p) = 255 \<and> ?out ! (4 * p + 1) = 255 \<and> ?out ! (4 * p + 2) = 255
          \<and> ?out ! (4 * p + 3) = pixels img ! (4 * p + 3)"
  proof (intro allI impI)
    fix p assume "p < ?n"
    then have b: "4 * p < 4 * ?n" "4 * p + 1 < 4 * ?n" "4 * p + 2 < 4 * ?n" "4 * p + 3 < 4 * ?n"
      by auto
    have m: "(4 * p) mod 4 = 0" "(4 * p + 1) mod 4 = 1" "(4 * p + 2) mod 4 = 2" "(4 * p + 3) mod 4 = 3"
      by presburger+
    show "?out ! (4 * p) = 255 \<and> ?out ! (4 * p + 1) = 255 \<and> ?out ! (4 * p + 2) = 255
          \<and> ?out ! (4 * p + 3) = pixels img ! (4 * p + 3)"
      using nth[OF b(1)] nth[OF b(2)] nth[OF b(3)] nth[OF b(4)] m by simp
  qed
  then show ?thesis
    using eq by (simp add: dodgeLoop_length)
qed

theorem sketch_black_witness:
  "\<exists>out. applySketchEffect (Some \<lparr>width = 1, height = 1, pixels = [0, 0, 0, 255]\<rparr>) True = Inr out
      \<and> pixels out ! 0 = 255 \<and> pixels out ! 1 = 255 \<and> pixels out ! 2 = 255 \<and> pixels out ! 3 = 255"
  using sketch_black[of "\<lparr>width = 1, height = 1, pixels = [0, 0, 0, 255]\<rparr>"]
  by (auto simp: numeral_2_eq_2)

text \<open>
  Claim C2 as stated fails: the one-pixel black image comes out white.
\<close>

theorem sketch_black_counterexample:
  "applySketchEffect (Some \<lparr>width = 1, height = 1, pixels = [0, 0, 0, 255]\<rparr>) True
   = Inr \<lparr>width = 1, height = 1, pixels = [255, 255, 255, 255]\<rparr>"
  by code_simp

section \<open>Properties of the scene sampler\<close>

lemma js_ge_Val [simp]: "js_ge (Val a) (Val b) = (b \<le> a)"
  by (auto simp: js_ge_def)

lemma sampleFrame_time [simp]: "processedTime (sampleFrame v st) = processedTime st + 1 / 2"
  by (simp add: sampleFrame_def sampleRate_def Let_def)

lemma processInterval_total:
  assumes d: "duration v = Val d"
    and step: "\<And>s. P s \<Longrightarrow> P (sampleFrame v s)"
  shows "P st \<Longrightarrow> \<exists>st'. P st' \<and> processInterval v st = Some (frames st')"
proof (induction "nat \<lceil>(d - processedTime st) * 2\<rceil>" arbitrary: st rule: less_induct)
  case less
  show ?case
  proof (cases "d \<le> processedTime st")
    case True
    then have "processInterval v st = Some (frames st)"
      by (subst processInterval.simps) (simp add: d)
    with less.prems show ?thesis by blast
  next
    case False
    then have lt: "nat \<lceil>(d - processedTime (sampleFrame v st)) * 2\<rceil> < nat \<lceil>(d - processedTime st) * 2\<rceil>"
      by (simp add: algebra_simps) linarith
    from less.hyps[OF lt step[OF less.prems]]
    obtain st' where "P st'" "processInterval v (sampleFrame v st) = Some (frames st')" by blast
    moreover have "processInterval v st = processInterval v (sampleFrame v st)"
      using False by (subst processInterval.simps) (simp add: d)
    ultimately show ?thesis by auto
  qed
qed

lemma processInterval_partial:
  assumes step: "\<And>s. P s \<Longrightarrow> P (sampleFrame v s)"
  shows "processInterval v st = Some ks \<Longrightarrow> P st \<Longrightarrow> \<exists>st'. P st' \<and> ks = frames st'"
proof -
  have "w = v \<longrightarrow> P st \<longrightarrow> (\<exists>st'. P st' \<and> ks = frames st')"
    if run: "processInterval w st = Some ks" for w
  proof (rule processInterval.raw_induct
      [where P = "\<lambda>w st ks. w = v \<longrightarrow> P st \<longrightarrow> (\<exists>st'. P st' \<and> ks = frames st')", OF _ run])
    fix f w st ks
    assume IH: "\<And>w st ks. f w st = Some ks \<Longrightarrow> w = v \<longrightarrow> P st \<longrightarrow> (\<exists>st'. P st' \<and> ks = frames st')"
      and eq: "(if js_ge (Val (processedTime st)) (duration w) then Some (frames st)
                else f w (sampleFrame w st)) = Some ks"
    show "w = v \<longrightarrow> P st \<longrightarrow> (\<exists>st'. P st' \<and> ks = frames st')"
    proof (intro impI)
      assume w: "w = v" and P: "P st"
      show "\<exists>st'. P st' \<and> ks = frames st'"
      proof (cases "js_ge (Val (processedTime st)) (duration w)")
        case True
        with eq have "ks = frames st" by simp
        with P show ?thesis by blast
      next
        case False
        with eq have r: "f w (sampleFrame w st) = Some ks" by simp
        have "P (sampleFrame w st)" using step[OF P] w by simp
        with IH[OF r] w show ?thesis by blast
      qed
    qed
  qed
  then show "processInterval v st = Some ks \<Longrightarrow> P st \<Longrightarrow> \<exists>st'. P st' \<and> ks = frames st'"
    by simp
qed

lemma sampleFrame_frames:
  "frames (sampleFrame v st) = frames st
   \<or> (\<exists>k. frames (sampleFrame v st) = frames st @ [k] \<and> time k = processedTime st)"
  by (auto simp: sampleFrame_def Let_def split: option.splits)

lemma spaced_step:
  assumes "sorted_wrt (\<lambda>a b. time a < time b \<and> time a + sampleRate \<le> time b) (frames st)
         \<and> (\<forall>k \<in> set (frames st). time k + sampleRate \<le> processedTime st)"
  shows "sorted_wrt (\<lambda>a b. time a < time b \<and> time a + sampleRate \<le> time b) (frames (sampleFrame v st))
         \<and> (\<forall>k \<in> set (frames (sampleFrame v st)). time k + sampleRate \<le> processedTime (sampleFrame v st))"
proof -
  have pos: "0 < sampleRate" by (simp add: sampleRate_def)
  have t: "processedTime (sampleFrame v st) = processedTime st + sampleRate"
    by (simp add: sampleRate_def)
  from sampleFrame_frames[of v st] show ?thesis
  proof
    assume "frames (sampleFrame v st) = frames st"
    with assms pos t show ?thesis by fastforce
  next
    assume "\<exists>k. frames (sampleFrame v st) = frames st @ [k] \<and> time k = processedTime st"
    then obtain k where k: "frames (sampleFrame v st) = frames st @ [k]" "time k = processedTime st"
      by blast
    have "\<forall>a \<in> set (frames st). time a < time k \<and> time a + sampleRate \<le> time k"
      using assms pos k(2) by fastforce
    with assms k pos t show ?thesis
      by (auto simp: sorted_wrt_append)
  qed
qed

text \<open>
  Claim C7. The keyframes delivered when the run completes have strictly increasing
  times, any two at least the sample interval apart; and a run over a finite duration
  completes.
\<close>

theorem keyframe_times_spaced:
  "(\<forall>ks. processInterval v initialSampler = Some ks \<longrightarrow>
        sorted_wrt (\<lambda>a b. time a < time b \<and> time a + sampleRate \<le> time b) ks)
   \<and> (\<forall>d. duration v = Val d \<longrightarrow> processInterval v initialSampler \<noteq> None)"
proof (intro conjI allI impI)
  fix ks assume run: "processInterval v initialSampler = Some ks"
  let ?P = "\<lambda>st. sorted_wrt (\<lambda>a b. time a < time b \<and> time a + sampleRate \<le> time b) (frames st)
         \<and> (\<forall>k \<in> set (frames st). time k + sampleRate \<le> processedTime st)"
  have "?P initialSampler" by (simp add: initialSampler_def)
  from processInterval_partial[of ?P v, OF spaced_step run this]
  show "sorted_wrt (\<lambda>a b. time a < time b \<and> time a + sampleRate \<le> time b) ks" by blast
next
  fix d assume d: "duration v = Val d"
  from processInterval_total[of v d "\<lambda>_. True" initialSampler, OF d]
  show "processInterval v initialSampler \<noteq> None" by auto
qed

theorem keyframe_times_spaced_witness:
  "processInterval \<lparr>duration = Val 2,
       frameAt = (\<lambda>t. if t = 1 / 2 then replicate 16 255 else replicate 16 0),
       capture = (\<lambda>t. Some (str ''u''))\<rparr> initialSampler \<noteq> None
   \<and> (\<exists>ks. processInterval \<lparr>duration = Val 2,
       frameAt = (\<lambda>t. if t = 1 / 2 then replicate 16 255 else replicate 16 0),
       capture = (\<lambda>t. Some (str ''u''))\<rparr> initialSampler = Some ks
     \<and> map time ks = [0, 1 / 2, 1]
     \<and> sorted_wrt (\<lambda>a b. time a < time b \<and> time a + sampleRate \<le> time b) ks)"
proof -
  let ?v = "\<lparr>duration = Val 2,
       frameAt = (\<lambda>t. if t = 1 / 2 then replicate 16 255 else replicate 16 0),
       capture = (\<lambda>t. Some (str ''u''))\<rparr>"
  have t: "map time (the (processInterval ?v initialSampler)) = [0, 1 / 2, 1]"
    by code_simp
  have n: "processInterval ?v initialSampler \<noteq> None"
    using conjunct2[OF keyframe_times_spaced[of ?v], rule_format, of 2] by simp
  then obtain ks where ks: "processInterval ?v initialSampler = Some ks" by auto
  with keyframe_times_spaced[of ?v] t n show ?thesis by auto
qed











section \<open>Properties of the storyboard compositor\<close>

lemma layout: "imageWidth = 560" "imageAreaHeight = 318"
  by (simp_all add: imageWidth_def imageAreaHeight_def cellWidth_def cellHeight_def gridWidth_def
      gridHeight_def canvasWidth_def canvasHeight_def padding_def headerHeight_def cellGapX_def
      cellGapY_def textAreaHeight_def cols_def rows_def)

lemma wrapLoop_commands:
  "wrapLoop env text x mw lh n (ctx, line, y, lc) = (ctx', line', y') \<Longrightarrow>
   \<exists>ls. commands ctx' = commands ctx @ ls \<and> (\<forall>c \<in> set ls. \<exists>t a b. c = FillText (font ctx) t a b)"
proof (induction "length text - n" arbitrary: n ctx line y lc rule: less_induct)
  case less
  show ?case
  proof (cases "n < length text")
    case False
    with less.prems show ?thesis by (simp add: wrapLoop.simps)
  next
    case True
    show ?thesis
    proof (cases "mw < measureText env (font ctx) (line @ [text ! n]) \<and> 0 < n")
      case False
      with True less.prems
      have "wrapLoop env text x mw lh (n + 1) (ctx, line @ [text ! n], y, lc) = (ctx', line', y')"
        by (subst (asm) wrapLoop.simps) (simp add: Let_def)
      moreover have "length text - (n + 1) < length text - n" using True by simp
      ultimately show ?thesis by (rule less.hyps[rotated])
    next
      case flush: True
      let ?ctx = "fillText ctx line x y"
      have c: "commands ?ctx = commands ctx @ [FillText (font ctx) line x y]" "font ?ctx = font ctx"
        by (simp_all add: fillText_def draw_def)
      show ?thesis
      proof (cases "4 < lc + 1")
        case True
        with flush \<open>n < length text\<close> less.prems have "ctx' = ?ctx"
          by (subst (asm) wrapLoop.simps) (simp add: Let_def)
        with c show ?thesis by simp
      next
        case False
        with flush \<open>n < length text\<close> less.prems
        have "wrapLoop env text x mw lh (n + 1) (?ctx, [text ! n], y + lh, lc + 1) = (ctx', line', y')"
          by (subst (asm) wrapLoop.simps) (simp add: Let_def)
        moreover have "length text - (n + 1) < length text - n" using \<open>n < length text\<close> by simp
        ultimately have "\<exists>ls. commands ctx' = commands ?ctx @ ls
            \<and> (\<forall>c \<in> set ls. \<exists>t a b. c = FillText (font ?ctx) t a b)"
          by (rule less.hyps[rotated])
        then obtain ls where "commands ctx' = commands ?ctx @ ls"
          "\<forall>c \<in> set ls. \<exists>t a b. c = FillText (font ctx) t a b"
          using c(2) by auto
        then have "commands ctx' = commands ctx @ (FillText (font ctx) line x y # ls)
            \<and> (\<forall>c \<in> set (FillText (font ctx) line x y # ls). \<exists>t a b. c = FillText (font ctx) t a b)"
          using c(1) by simp
        then show ?thesis by blast
      qed
    qed
  qed
qed

lemma wrapLoop_font:
  "wrapLoop env text x mw lh n (ctx, line, y, lc) = (ctx', line', y') \<Longrightarrow> font ctx' = font ctx"
proof (induction "length text - n" arbitrary: n ctx line y lc rule: less_induct)
  case less
  show ?case
  proof (cases "n < length text")
    case False
    with less.prems show ?thesis by (simp add: wrapLoop.simps)
  next
    case True
    have m: "length text - (n + 1) < length text - n" using True by simp
    show ?thesis
    proof (cases "mw < measureText env (font ctx) (line @ [text ! n]) \<and> 0 < n")
      case False
      with True less.prems
      have "wrapLoop env text x mw lh (n + 1) (ctx, line @ [text ! n], y, lc) = (ctx', line', y')"
        by (subst (asm) wrapLoop.simps) (simp add: Let_def)
      with m show ?thesis by (rule less.hyps)
    next
      case flush: True
      let ?ctx = "fillText ctx line x y"
      have c: "font ?ctx = font ctx" by (simp add: fillText_def draw_def)
      show ?thesis
      proof (cases "4 < lc + 1")
        case True
        with flush \<open>n < length text\<close> less.prems have "ctx' = ?ctx"
          by (subst (asm) wrapLoop.simps) (simp add: Let_def)
        with c show ?thesis by simp
      next
        case False
        with flush \<open>n < length text\<close> less.prems
        have "wrapLoop env text x mw lh (n + 1) (?ctx, [text ! n], y + lh, lc + 1) = (ctx', line', y')"
          by (subst (asm) wrapLoop.simps) (simp add: Let_def)
        with m have "font ctx' = font ?ctx" by (rule less.hyps)
        with c show ?thesis by simp
      qed
    qed
  qed
qed

lemma wrapText_commands:
  "\<exists>ls. commands (wrapText env ctx text x y mw lh) = commands ctx @ ls
      \<and> (\<forall>c \<in> set ls. \<exists>t a b. c = FillText (font ctx) t a b)"
proof -
  obtain ctx' line' y' where w: "wrapLoop env text x mw lh 0 (ctx, [], y, 0) = (ctx', line', y')"
    by (metis prod_cases3)
  from wrapLoop_commands[OF w] obtain ls where
    ls: "commands ctx' = commands ctx @ ls" "\<forall>c \<in> set ls. \<exists>t a b. c = FillText (font ctx) t a b"
    by blast
  have "commands (wrapText env ctx text x y mw lh)
      = commands ctx @ (ls @ [FillText (font ctx) line' x y'])"
    using ls(1) wrapLoop_font[OF w] by (simp add: wrapText_def w fillText_def draw_def)
  moreover have "\<forall>c \<in> set (ls @ [FillText (font ctx) line' x y']). \<exists>t a b. c = FillText (font ctx) t a b"
    using ls(2) by auto
  ultimately show ?thesis by blast
qed

lemma drawFrame_commands:
  "\<exists>ls. commands (drawFrame env i ctx (j, frame)) =
      commands ctx
      @ [StrokeRect (padding + real (j mod cols) * (cellWidth + cellGapX))
           (padding + headerHeight + real (j div cols) * (cellHeight + cellGapY))
           imageWidth imageAreaHeight]
      @ (case loadImage env (imageUrl frame) of
           None \<Rightarrow> []
         | Some (imgW, imgH) \<Rightarrow>
             [DrawImage (imageUrl frame)
                (js_add (Val (padding + real (j mod cols) * (cellWidth + cellGapX)))
                   (offX (coverFit imgW imgH)))
                (js_add (Val (padding + headerHeight + real (j div cols) * (cellHeight + cellGapY)))
                   (offY (coverFit imgW imgH)))
                (drawW (coverFit imgW imgH)) (drawH (coverFit imgW imgH))
                (padding + real (j mod cols) * (cellWidth + cellGapX),
                 padding + headerHeight + real (j div cols) * (cellHeight + cellGapY),
                 imageWidth, imageAreaHeight)])
      @ [FillText FontNumber (toStringNat (i + j + 1))
           (padding + real (j mod cols) * (cellWidth + cellGapX) - 5)
           (padding + headerHeight + real (j div cols) * (cellHeight + cellGapY) - 5)]
      @ ls
    \<and> (\<forall>c \<in> set ls. \<exists>t a b. c = FillText FontMain t a b)"
proof -
  let ?x = "padding + real (j mod cols) * (cellWidth + cellGapX)"
  let ?y = "padding + headerHeight + real (j div cols) * (cellHeight + cellGapY)"
  let ?c1 = "draw ctx (StrokeRect ?x ?y imageWidth imageAreaHeight)"
  let ?c2 = "case loadImage env (imageUrl frame) of
               None \<Rightarrow> ?c1
             | Some (imgW, imgH) \<Rightarrow>
                 draw ?c1 (DrawImage (imageUrl frame)
                   (js_add (Val ?x) (offX (coverFit imgW imgH)))
                   (js_add (Val ?y) (offY (coverFit imgW imgH)))
                   (drawW (coverFit imgW imgH)) (drawH (coverFit imgW imgH))
                   (?x, ?y, imageWidth, imageAreaHeight))"
  let ?c3 = "fillText (?c2\<lparr>font := FontNumber\<rparr>) (toStringNat (i + j + 1)) (?x - 5) (?y - 5)"
  let ?text = "case caption frame of None \<Rightarrow> placeholderCaption
               | Some c \<Rightarrow> if c = [] then placeholderCaption else c"
  have unfold: "drawFrame env i ctx (j, frame)
      = wrapText env (?c3\<lparr>font := FontMain\<rparr>) ?text ?x (?y + imageAreaHeight + 25) imageWidth 28"
    by (simp add: drawFrame_def Let_def split: option.splits prod.splits)
  from wrapText_commands[of env "?c3\<lparr>font := FontMain\<rparr>" ?text ?x "?y + imageAreaHeight + 25" imageWidth 28]
  obtain ls where ls: "commands (drawFrame env i ctx (j, frame)) = commands (?c3\<lparr>font := FontMain\<rparr>) @ ls"
    "\<forall>c \<in> set ls. \<exists>t a b. c = FillText FontMain t a b"
    unfolding unfold by auto
  have "commands (?c3\<lparr>font := FontMain\<rparr>) = 
      commands ctx @ [StrokeRect ?x ?y imageWidth imageAreaHeight]
      @ (case loadImage env (imageUrl frame) of
           None \<Rightarrow> []
         | Some (imgW, imgH) \<Rightarrow>
             [DrawImage (imageUrl frame)
                (js_add (Val ?x) (offX (coverFit imgW imgH)))
                (js_add (Val ?y) (offY (coverFit imgW imgH)))
                (drawW (coverFit imgW imgH)) (drawH (coverFit imgW imgH))
                (?x, ?y, imageWidth, imageAreaHeight)])
      @ [FillText FontNumber (toStringNat (i + j + 1)) (?x - 5) (?y - 5)]"
    by (simp add: fillText_def draw_def split: option.splits prod.splits)
  with ls show ?thesis by auto
qed

text \<open>
  Claim C3 fails on the code. In the caption area (560 pixels wide, lines 28 pixels
  apart) with glyphs 24 pixels wide, 23 characters fit a line, and a caption of 120
  characters is drawn as six lines: the loop stops after the fifth flush, and the
  \<^verbatim>\<open>fillText\<close> after the loop then draws the one character that started the sixth
  line.
\<close>

theorem wrapText_draws_six_lines:
  "commands (wrapText
     \<lparr>getContext = (\<lambda>_. True), loadImage = (\<lambda>_. None),
        measureText = (\<lambda>f s. 24 * real (length s))\<rparr>
     \<lparr>font = FontMain, commands = []\<rparr> (replicate 120 0x5F85) 60 503 560 28)
   = [FillText FontMain (replicate 23 0x5F85) 60 503,
      FillText FontMain (replicate 23 0x5F85) 60 531,
      FillText FontMain (replicate 23 0x5F85) 60 559,
      FillText FontMain (replicate 23 0x5F85) 60 587,
      FillText FontMain (replicate 23 0x5F85) 60 615,
      FillText FontMain [0x5F85] 60 643]"
  by code_simp

lemma coverFit_wide:
  assumes wide: "js_gt (js_div (Val (real imgW)) (Val (real imgH)))
                       (js_div (Val imageWidth) (Val imageAreaHeight))"
  shows "drawH (coverFit imgW imgH) = Val imageAreaHeight
     \<and> drawW (coverFit imgW imgH)
         = js_mul (Val imageAreaHeight) (js_div (Val (real imgW)) (Val (real imgH)))
     \<and> js_gt (drawW (coverFit imgW imgH)) (Val imageWidth)
     \<and> offX (coverFit imgW imgH)
         = js_div (js_sub (Val imageWidth) (drawW (coverFit imgW imgH))) (Val 2)
     \<and> js_gt (Val 0) (offX (coverFit imgW imgH))
     \<and> offY (coverFit imgW imgH) = Val 0"
proof (cases "imgH = 0")
  case True
  with wide have "imgW \<noteq> 0" by (cases "imgW = 0") (auto simp: layout)
  with True wide show ?thesis
    by (simp add: coverFit_def Let_def layout js_sub_def)
next
  case False
  with wide have "560 / 318 < real imgW / real imgH" by (simp add: layout)
  moreover have "560 < 318 * r" if "560 / 318 < r" for r :: real
    using that by linarith
  ultimately have "560 < 318 * (real imgW / real imgH)" by blast
  with False wide show ?thesis
    by (simp add: coverFit_def Let_def layout js_sub_def)
qed

text \<open>
  Claim C9. When the aspect ratio of the loaded image exceeds that of the image box, the
  drawn height is the box height, the drawn width is the box height times the image
  aspect and exceeds the box width, the horizontal offset is half of box width minus
  drawn width and is negative, the vertical offset is 0, and the image is drawn at that
  offset with the box as its clip rectangle.
\<close>

theorem cover_fit_wide_image:
  assumes wide: "js_gt (js_div (Val (real imgW)) (Val (real imgH)))
                       (js_div (Val imageWidth) (Val imageAreaHeight))"
    and loaded: "loadImage env (imageUrl frame) = Some (imgW, imgH)"
  shows "drawH (coverFit imgW imgH) = Val imageAreaHeight
     \<and> drawW (coverFit imgW imgH)
         = js_mul (Val imageAreaHeight) (js_div (Val (real imgW)) (Val (real imgH)))
     \<and> js_gt (drawW (coverFit imgW imgH)) (Val imageWidth)
     \<and> offX (coverFit imgW imgH)
         = js_div (js_sub (Val imageWidth) (drawW (coverFit imgW imgH))) (Val 2)
     \<and> js_gt (Val 0) (offX (coverFit imgW imgH))
     \<and> offY (coverFit imgW imgH) = Val 0
     \<and> DrawImage (imageUrl frame)
          (js_add (Val (padding + real (j mod cols) * (cellWidth + cellGapX)))
             (offX (coverFit imgW imgH)))
          (Val (padding + headerHeight + real (j div cols) * (cellHeight + cellGapY)))
          (drawW (coverFit imgW imgH)) (Val imageAreaHeight)
          (padding + real (j mod cols) * (cellWidth + cellGapX),
           padding + headerHeight + real (j div cols) * (cellHeight + cellGapY),
           imageWidth, imageAreaHeight)
        \<in> set (commands (drawFrame env i ctx (j, frame)))"
proof -
  let ?x = "padding + real (j mod cols) * (cellWidth + cellGapX)"
  let ?y = "padding + headerHeight + real (j div cols) * (cellHeight + cellGapY)"
  let ?p = "coverFit imgW imgH"
  note fit = coverFit_wide[OF wide]
  from drawFrame_commands[of env i ctx j frame] obtain ls where
    "commands (drawFrame env i ctx (j, frame)) =
      commands ctx @ [StrokeRect ?x ?y imageWidth imageAreaHeight]
      @ (case loadImage env (imageUrl frame) of
           None \<Rightarrow> []
         | Some (imgW, imgH) \<Rightarrow>
             [DrawImage (imageUrl frame)
                (js_add (Val ?x) (offX (coverFit imgW imgH)))
                (js_add (Val ?y) (offY (coverFit imgW imgH)))
                (drawW (coverFit imgW imgH)) (drawH (coverFit imgW imgH))
                (?x, ?y, imageWidth, imageAreaHeight)])
      @ [FillText FontNumber (toStringNat (i + j + 1)) (?x - 5) (?y - 5)]
      @ ls"
    by blast
  then have "DrawImage (imageUrl frame) (js_add (Val ?x) (offX ?p)) (js_add (Val ?y) (offY ?p))
        (drawW ?p) (drawH ?p) (?x, ?y, imageWidth, imageAreaHeight)
      \<in> set (commands (drawFrame env i ctx (j, frame)))"
    by (simp add: loaded)
  moreover have "js_add (Val ?y) (offY ?p) = Val ?y" "drawH ?p = Val imageAreaHeight"
    using fit by simp_all
  ultimately have "DrawImage (imageUrl frame) (js_add (Val ?x) (offX ?p)) (Val ?y)
        (drawW ?p) (Val imageAreaHeight) (?x, ?y, imageWidth, imageAreaHeight)
      \<in> set (commands (drawFrame env i ctx (j, frame)))"
    by (simp only:)
  with fit show ?thesis by blast
qed

theorem cover_fit_wide_image_witness:
  "offX (coverFit 16 9) = Val (- (8 / 3)) \<and> drawW (coverFit 16 9) = Val (1696 / 3)
   \<and> drawH (coverFit 16 9) = Val 318
   \<and> DrawImage (str ''u'') (Val (172 / 3)) (Val 160) (Val (1696 / 3)) (Val 318) (60, 160, 560, 318)
       \<in> set (commands (drawFrame
            \<lparr>getContext = (\<lambda>_. True), loadImage = (\<lambda>_. Some (16, 9)), measureText = (\<lambda>f s. 0)\<rparr>
            0 \<lparr>font = FontMain, commands = []\<rparr>
            (0, \<lparr>id' = [], time = 0, imageUrl = str ''u'', isSketch = False,
                 originalUrl = str ''u'', caption = None\<rparr>)))"
  using cover_fit_wide_image[of 16 9
      "\<lparr>getContext = (\<lambda>_. True), loadImage = (\<lambda>_. Some (16, 9)), measureText = (\<lambda>f s. 0)\<rparr>"
      "\<lparr>id' = [], time = 0, imageUrl = str ''u'', isSketch = False,
                 originalUrl = str ''u'', caption = None\<rparr>" 0 0 "\<lparr>font = FontMain, commands = []\<rparr>"]
  by (auto simp: layout js_sub_def padding_def headerHeight_def)













section \<open>Properties of the shot table export\<close>

lemma forEachRow_append:
  "forEachRow csv index (xs @ ys) = forEachRow (forEachRow csv index xs) (index + length xs) ys"
  by (induction xs arbitrary: csv index) simp_all

text \<open>
  Claim C10. The row appended for a keyframe without caption is its shot number, a comma,
  its timecode, a comma, an empty description and the line break; the rows of the
  frames after it follow.
\<close>

theorem csv_row_without_caption:
  assumes "caption f = None"
  shows "handleExportTable (before @ f # after) =
    forEachRow (handleExportTable before @ toStringNat (length before + 1) @ str '','' 
                  @ formatTime (time f) @ str '','' @ [] @ [0x0A])
      (length before + 1) after"
  using assms by (simp add: handleExportTable_def forEachRow_append csvRow_def)

theorem csv_row_without_caption_witness:
  "handleExportTable
     [\<lparr>id' = str ''frame-61.50'', time = 123 / 2, imageUrl = str ''u'', isSketch = False,
        originalUrl = str ''u'', caption = None\<rparr>]
   = [0xFEFF] @ str ''Shot No.,Timecode,Description'' @ [0x0A] @ str ''1,1:01,'' @ [0x0A]"
proof -
  let ?f = "\<lparr>id' = str ''frame-61.50'', time = 123 / 2, imageUrl = str ''u'', isSketch = False,
        originalUrl = str ''u'', caption = None\<rparr>"
  have t: "formatTime (123 / 2) = [49, 58, 48, 49]" by code_simp
  have n: "toStringNat (Suc 0) = [49]" by code_simp
  have h: "handleExportTable [] = [0xFEFF] @ str ''Shot No.,Timecode,Description'' @ [0x0A]"
    by (simp add: handleExportTable_def)
  from csv_row_without_caption[of ?f "[]" "[]"] show ?thesis
    by (simp add: t n h str_def)
qed

end
